theory Spec2Isabelle
  imports Complex_Main
begin

section \<open>Arrays\<close>

text \<open>
  The arrays of this model are two-dimensional numpy arrays of dtype int64, the dtype numpy
  gives to an array built from Python integers such as the sample of the specification.
  An array is the list of its rows; numpy arrays are rectangular, which is the predicate
  \<open>rectangular\<close>, and the entries of an int64 array lie in the range of signed 64-bit
  integers, which is the predicate \<open>dtype_int64\<close>. Arithmetic on int64 arrays and
  int64 scalars wraps around at 64 bits: \<open>wrap64\<close>. An array without rows is given
  width 0.

  Arrays of other dtypes are not modelled. An image read by \<open>cv2.imread\<close> is a uint8
  array; numpy sums it in uint64, where a difference wraps at \<open>2^64\<close> and the product
  with a negative polarity depends on the version of numpy. Arrays of floating-point
  numbers round. The results below that depend on the values of the entries are therefore
  stated for int64 arrays.
\<close>

datatype error = ZeroDivisionError | ValueError

type_synonym ndarray = "int list list"

definition int64 :: "int \<Rightarrow> bool" where
  "int64 v = (- (2 ^ 63) \<le> v \<and> v < 2 ^ 63)"

definition wrap64 :: "int \<Rightarrow> int" where
  "wrap64 v = (v + 2 ^ 63) mod 2 ^ 64 - 2 ^ 63"

definition dtype_int64 :: "ndarray \<Rightarrow> bool" where
  "dtype_int64 img = list_all (list_all int64) img"

definition shape0 :: "ndarray \<Rightarrow> int" where
  "shape0 img = int (length img)"

definition shape1 :: "ndarray \<Rightarrow> int" where
  "shape1 img = (case img of [] \<Rightarrow> 0 | r # _ \<Rightarrow> int (length r))"

definition rectangular :: "ndarray \<Rightarrow> bool" where
  "rectangular img = list_all (\<lambda>r. int (length r) = shape1 img) img"

text \<open>A well-formed two-dimensional int64 array.\<close>

definition int64_ndarray :: "ndarray \<Rightarrow> bool" where
  "int64_ndarray img = (rectangular img \<and> dtype_int64 img)"

text \<open>
  Python slicing \<open>xs[a:b]\<close> with step 1: a negative bound counts from the end, and
  every bound is clamped to the length, so a slice never raises.
\<close>

definition slice_index :: "nat \<Rightarrow> int \<Rightarrow> nat" where
  "slice_index n i = (if i < 0 then nat (max (i + int n) 0) else min (nat i) n)"

definition py_slice :: "int \<Rightarrow> int \<Rightarrow> 'a list \<Rightarrow> 'a list" where
  "py_slice a b xs =
     (let s = slice_index (length xs) a; e = slice_index (length xs) b
      in take (e - s) (drop s xs))"

text \<open>\<open>img[y0:y1, x0:x1]\<close>\<close>

definition slice2 :: "int \<Rightarrow> int \<Rightarrow> int \<Rightarrow> int \<Rightarrow> ndarray \<Rightarrow> ndarray" where
  "slice2 y0 y1 x0 x1 img = map (py_slice x0 x1) (py_slice y0 y1 img)"

text \<open>
  \<open>img.sum()\<close>: the sum of all entries in int64 arithmetic, 0 for an empty array.
  Addition modulo \<open>2^64\<close> is associative and commutative, so the wrapped result does
  not depend on the order in which numpy adds.
\<close>

definition array_sum :: "ndarray \<Rightarrow> int" where
  "array_sum img = wrap64 (sum_list (map sum_list img))"

text \<open>\<open>cumsum\<close> of a vector, and along either axis of an array, in int64 arithmetic.\<close>

fun cumsum_from :: "int \<Rightarrow> int list \<Rightarrow> int list" where
  "cumsum_from acc [] = []"
| "cumsum_from acc (x # xs) = (let a = wrap64 (acc + x) in a # cumsum_from a xs)"

definition cumsum :: "int list \<Rightarrow> int list" where
  "cumsum xs = cumsum_from 0 xs"

fun cumsum_rows_from :: "int list \<Rightarrow> ndarray \<Rightarrow> ndarray" where
  "cumsum_rows_from acc [] = []"
| "cumsum_rows_from acc (r # rs) =
     (let a = map2 (\<lambda>p q. wrap64 (p + q)) acc r in a # cumsum_rows_from a rs)"

definition cumsum_axis0 :: "ndarray \<Rightarrow> ndarray" where
  "cumsum_axis0 img = (case img of [] \<Rightarrow> [] | r # rs \<Rightarrow> r # cumsum_rows_from r rs)"

definition cumsum_axis1 :: "ndarray \<Rightarrow> ndarray" where
  "cumsum_axis1 img = map cumsum img"

section \<open>Step 1: the integral image\<close>

definition integral_image :: "ndarray \<Rightarrow> ndarray" where
  "integral_image img = cumsum_axis1 (cumsum_axis0 img)"

section \<open>Step 2: Haar-like features\<close>

record HaarFeature =
  feature_type :: string
  position :: "int \<times> int"
  width :: int
  height :: int

text \<open>
  Python's \<open>//\<close> is floor division, as \<open>div\<close> on \<open>int\<close> is. The two sums are int64
  scalars and their difference wraps.
\<close>

definition compute :: "HaarFeature \<Rightarrow> ndarray \<Rightarrow> int" where
  "compute f int_img =
     (case position f of (x, y) \<Rightarrow>
        let w = width f; h = height f in
        if feature_type f = ''two-rect'' then
          (let white = array_sum (slice2 y (y + h) x (x + w div 2) int_img);
               black = array_sum (slice2 y (y + h) (x + w div 2) (x + w) int_img)
           in wrap64 (white - black))
        else 0)"

section \<open>Step 3: weak classifiers\<close>

text \<open>
  Thresholds are rational numbers: the thresholds the trainers try are the ten points of
  \<open>np.linspace(-1, 1, num=10)\<close>, and stage thresholds are arbitrary numbers. The
  polarity is an integer in the int64 range, 1 or -1 in the trainers. Its product with the
  int64 feature value is an int64 scalar and wraps. The comparison of that integer with
  \<open>polarity * threshold\<close> is exact.
\<close>

record WeakClassifier =
  feature :: HaarFeature
  threshold :: rat
  polarity :: int

definition predict :: "WeakClassifier \<Rightarrow> ndarray \<Rightarrow> int" where
  "predict c int_img =
     (let feature_value = compute (feature c) int_img in
      if of_int (wrap64 (polarity c * feature_value))
           < of_int (polarity c) * WeakClassifier.threshold c
      then 1 else 0)"

section \<open>Step 5: cascades\<close>

fun detect_faces_loop :: "WeakClassifier list \<Rightarrow> ndarray \<Rightarrow> bool" where
  "detect_faces_loop [] int_img = True"
| "detect_faces_loop (classifier # rest) int_img =
     (if predict classifier int_img = 0 then False else detect_faces_loop rest int_img)"

definition detect_faces :: "ndarray \<Rightarrow> WeakClassifier list \<Rightarrow> bool" where
  "detect_faces img classifiers = detect_faces_loop classifiers (integral_image img)"

record CascadeStage =
  classifiers :: "WeakClassifier list"
  threshold :: rat

record HaarCascade =
  stages :: "CascadeStage list"

text \<open>
  To observe which classifiers are evaluated, \<open>classify\<close> and \<open>detect\<close> thread a call
  log: the list of the classifiers whose \<open>predict\<close> has been called, in call order.
\<close>

type_synonym call_log = "WeakClassifier list"

fun stage_sum_loop :: "WeakClassifier list \<Rightarrow> ndarray \<Rightarrow> int \<times> call_log \<Rightarrow> int \<times> call_log" where
  "stage_sum_loop [] int_img st = st"
| "stage_sum_loop (clf # clfs) int_img (s, calls) =
     stage_sum_loop clfs int_img (s + predict clf int_img, calls @ [clf])"

definition classify_log :: "CascadeStage \<Rightarrow> ndarray \<Rightarrow> call_log \<Rightarrow> bool \<times> call_log" where
  "classify_log stage int_img calls =
     (case stage_sum_loop (classifiers stage) int_img (0, calls) of
        (stage_sum, calls') \<Rightarrow> (CascadeStage.threshold stage \<le> of_int stage_sum, calls'))"

definition classify :: "CascadeStage \<Rightarrow> ndarray \<Rightarrow> bool" where
  "classify stage int_img = fst (classify_log stage int_img [])"

fun detect_loop :: "CascadeStage list \<Rightarrow> ndarray \<Rightarrow> call_log \<Rightarrow> bool \<times> call_log" where
  "detect_loop [] integral_img calls = (True, calls)"
| "detect_loop (stage # rest) integral_img calls =
     (case classify_log stage integral_img calls of
        (ok, calls') \<Rightarrow> if \<not> ok then (False, calls') else detect_loop rest integral_img calls')"

definition detect_log :: "HaarCascade \<Rightarrow> ndarray \<Rightarrow> call_log \<Rightarrow> bool \<times> call_log" where
  "detect_log cascade img calls = detect_loop (stages cascade) (integral_image img) calls"

definition detect :: "HaarCascade \<Rightarrow> ndarray \<Rightarrow> bool" where
  "detect cascade img = fst (detect_log cascade img [])"

section \<open>Step 6: the sliding window\<close>

text \<open>
  Python's \<open>range(0, stop, step)\<close>: it raises ValueError for a zero step, counts upwards
  from 0 while below \<open>stop\<close> for a positive step, and downwards from 0 while above
  \<open>stop\<close> for a negative step.
\<close>

definition range_len :: "int \<Rightarrow> int \<Rightarrow> nat" where
  "range_len stop step =
     (if 0 < step \<and> 0 < stop then nat ((stop - 1) div step + 1)
      else if step < 0 \<and> stop < 0 then nat ((- stop - 1) div (- step) + 1)
      else 0)"

definition py_range :: "int \<Rightarrow> int \<Rightarrow> error + int list" where
  "py_range stop step =
     (if step = 0 then Inl ValueError
      else Inr (map (\<lambda>k. int k * step) [0..<range_len stop step]))"

type_synonym region = "int \<times> int \<times> int \<times> int"

text \<open>The inner loop over \<open>x\<close> and the outer loop over \<open>y\<close>.\<close>

fun scan_row :: "ndarray \<Rightarrow> HaarCascade \<Rightarrow> int \<times> int \<Rightarrow> int \<Rightarrow> int list \<Rightarrow> region list \<Rightarrow> region list" where
  "scan_row img cascade window_size y [] detected_regions = detected_regions"
| "scan_row img cascade window_size y (x # xs) detected_regions =
     (let window = slice2 y (y + snd window_size) x (x + fst window_size) img in
      scan_row img cascade window_size y xs
        (if detect cascade window
         then detected_regions @ [(x, y, fst window_size, snd window_size)]
         else detected_regions))"

fun scan_rows :: "ndarray \<Rightarrow> HaarCascade \<Rightarrow> int \<times> int \<Rightarrow> int \<Rightarrow> int list \<Rightarrow> region list \<Rightarrow> error + region list" where
  "scan_rows img cascade window_size step_size [] detected_regions = Inr detected_regions"
| "scan_rows img cascade window_size step_size (y # ys) detected_regions =
     (case py_range (shape1 img - fst window_size) step_size of
        Inl e \<Rightarrow> Inl e
      | Inr xs \<Rightarrow>
          scan_rows img cascade window_size step_size ys
            (scan_row img cascade window_size y xs detected_regions))"

definition sliding_window :: "ndarray \<Rightarrow> HaarCascade \<Rightarrow> int \<times> int \<Rightarrow> int \<Rightarrow> error + region list" where
  "sliding_window img cascade window_size step_size =
     (case py_range (shape0 img - snd window_size) step_size of
        Inl e \<Rightarrow> Inl e
      | Inr ys \<Rightarrow> scan_rows img cascade window_size step_size ys [])"

section \<open>Step 4: the trainers\<close>

text \<open>
  \<open>np.linspace(start, stop, num)\<close> returns \<open>start + i * (stop - start) / (num - 1)\<close>
  for \<open>i < num\<close>, here as exact rationals. For \<open>np.linspace(-1, 1, num=10)\<close> the two
  end points are the integers -1 and 1 and are exact in floating point; the eight inner
  points are not integers, neither exactly nor rounded, so comparing them with an integer
  feature value gives the same answer in both. The two nested loops over thresholds and
  polarities are the list \<open>candidates\<close>, in the order the loops enumerate it.
\<close>

definition linspace :: "rat \<Rightarrow> rat \<Rightarrow> nat \<Rightarrow> rat list" where
  "linspace start stop num =
     map (\<lambda>i. start + of_nat i * ((stop - start) / of_nat (num - 1))) [0..<num]"

definition candidates :: "HaarFeature \<Rightarrow> WeakClassifier list" where
  "candidates f =
     concat (map (\<lambda>t. map (\<lambda>p. \<lparr>feature = f, WeakClassifier.threshold = t, polarity = p\<rparr>) [1, - 1])
       (linspace (- 1) 1 10))"

text \<open>
  The search shared by both trainers: the best classifier so far, initially \<open>None\<close>
  with accuracy 0, is replaced only by a strictly more accurate one. Computing an accuracy
  divides the number of correct classifications by the number of samples, which raises
  ZeroDivisionError when there is no sample. Accuracies are exact rationals; dividing by
  the same positive total keeps the order of the counts.
\<close>

fun search_best :: "(WeakClassifier \<Rightarrow> error + rat) \<Rightarrow> WeakClassifier list \<Rightarrow>
    WeakClassifier option \<times> rat \<Rightarrow> error + (WeakClassifier option \<times> rat)" where
  "search_best acc [] best = Inr best"
| "search_best acc (classifier # rest) (best_classifier, best_accuracy) =
     (case acc classifier of
        Inl e \<Rightarrow> Inl e
      | Inr accuracy \<Rightarrow>
          if best_accuracy < accuracy then search_best acc rest (Some classifier, accuracy)
          else search_best acc rest (best_classifier, best_accuracy))"

definition correct_count :: "WeakClassifier \<Rightarrow> ndarray list \<Rightarrow> ndarray list \<Rightarrow> nat" where
  "correct_count classifier pos_imgs neg_imgs =
     length (filter (\<lambda>img. predict classifier (integral_image img) = 1) pos_imgs) +
     length (filter (\<lambda>img. predict classifier (integral_image img) = 0) neg_imgs)"

definition accuracy :: "WeakClassifier \<Rightarrow> ndarray list \<Rightarrow> ndarray list \<Rightarrow> error + rat" where
  "accuracy classifier pos_imgs neg_imgs =
     (let correct = correct_count classifier pos_imgs neg_imgs;
          total = length pos_imgs + length neg_imgs
      in if total = 0 then Inl ZeroDivisionError else Inr (of_nat correct / of_nat total))"


text \<open>
  \<open>adaboost_train\<close> receives integral images. It computes initial sample weights and
  then never reads them; the place where they would be updated is a comment.
\<close>

definition initial_weights :: "nat \<Rightarrow> nat \<Rightarrow> rat list" where
  "initial_weights num_pos num_neg =
     replicate num_pos (1 / of_nat (2 * num_pos)) @ replicate num_neg (1 / of_nat (2 * num_neg))"

definition predictions :: "WeakClassifier \<Rightarrow> ndarray list \<Rightarrow> ndarray list \<Rightarrow> int list" where
  "predictions classifier pos_integral_images neg_integral_images =
     map (\<lambda>img. predict classifier img) pos_integral_images @
     map (\<lambda>img. 1 - predict classifier img) neg_integral_images"

definition adaboost_accuracy :: "WeakClassifier \<Rightarrow> ndarray list \<Rightarrow> ndarray list \<Rightarrow> error + rat" where
  "adaboost_accuracy classifier pos_integral_images neg_integral_images =
     (let num_pos = length pos_integral_images; num_neg = length neg_integral_images
      in if num_pos + num_neg = 0 then Inl ZeroDivisionError
         else Inr (of_int (sum_list (predictions classifier pos_integral_images neg_integral_images))
                   / of_nat (num_pos + num_neg)))"

fun adaboost_loop :: "HaarFeature list \<Rightarrow> ndarray list \<Rightarrow> ndarray list \<Rightarrow> rat list \<Rightarrow>
    WeakClassifier option list \<Rightarrow> error + WeakClassifier option list" where
  "adaboost_loop [] pos neg weights clfs = Inr clfs"
| "adaboost_loop (f # fs) pos neg weights clfs =
     (case search_best (\<lambda>classifier. adaboost_accuracy classifier pos neg) (candidates f) (None, 0) of
        Inl e \<Rightarrow> Inl e
      | Inr (best_classifier, best_accuracy) \<Rightarrow>
          adaboost_loop fs pos neg weights (clfs @ [best_classifier]))"

definition adaboost_train :: "HaarFeature list \<Rightarrow> ndarray list \<Rightarrow> ndarray list \<Rightarrow> error + WeakClassifier option list" where
  "adaboost_train features pos_integral_images neg_integral_images =
     adaboost_loop features pos_integral_images neg_integral_images
       (initial_weights (length pos_integral_images) (length neg_integral_images)) []"

section \<open>Vocabulary of the specification\<close>

text \<open>
  The specification speaks of sums of raw pixels over a rectangle, of integral-image
  entries with zero padding at index -1, and of the four-corner lookup. These notions do
  not occur in the code; they are defined here from the specification's words, to state
  what the code is compared with.
\<close>

definition spec_brute_sum :: "ndarray \<Rightarrow> nat \<Rightarrow> nat \<Rightarrow> nat \<Rightarrow> nat \<Rightarrow> int" where
  "spec_brute_sum img y0 y1 x0 x1 =
     sum_list (map (\<lambda>r. sum_list (map (\<lambda>c. img ! r ! c) [x0..<x1])) [y0..<y1])"

definition spec_at :: "ndarray \<Rightarrow> int \<Rightarrow> int \<Rightarrow> int" where
  "spec_at I y x = (if y < 0 \<or> x < 0 then 0 else I ! nat y ! nat x)"

definition spec_corner_sum :: "ndarray \<Rightarrow> nat \<Rightarrow> nat \<Rightarrow> nat \<Rightarrow> nat \<Rightarrow> int" where
  "spec_corner_sum I y0 y1 x0 x1 =
     spec_at I (int y1 - 1) (int x1 - 1) - spec_at I (int y0 - 1) (int x1 - 1)
     - spec_at I (int y1 - 1) (int x0 - 1) + spec_at I (int y0 - 1) (int x0 - 1)"

definition spec_exceeds_extent :: "HaarFeature \<Rightarrow> ndarray \<Rightarrow> bool" where
  "spec_exceeds_extent f int_img =
     (case position f of (x, y) \<Rightarrow>
        x < 0 \<or> y < 0 \<or> shape1 int_img < x + width f \<or> shape0 int_img < y + height f)"

definition spec_weighted_score :: "WeakClassifier \<Rightarrow> ndarray list \<Rightarrow> ndarray list \<Rightarrow> rat" where
  "spec_weighted_score classifier pos neg =
     sum_list (map2 (\<lambda>w p. w * of_int p) (initial_weights (length pos) (length neg))
       (predictions classifier pos neg))"

text \<open>
  The sum of the absolute values of all entries: a bound on every sum of entries the code
  forms, used to say that no sum overflows.
\<close>

definition abs_total :: "ndarray \<Rightarrow> int" where
  "abs_total img = sum_list (map (\<lambda>r. sum_list (map abs r)) img)"

definition spec_raw_count :: "WeakClassifier \<Rightarrow> ndarray list \<Rightarrow> ndarray list \<Rightarrow> nat" where
  "spec_raw_count classifier pos neg =
     length (filter (\<lambda>int_img. predict classifier int_img = 1) pos) +
     length (filter (\<lambda>int_img. predict classifier int_img = 0) neg)"

section \<open>Example inputs\<close>

text \<open>The 4 by 4 sample of the specification's end-to-end scenario.\<close>

definition sample :: ndarray where
  "sample = [[1, 1, 2, 2], [1, 1, 2, 2], [3, 3, 4, 4], [3, 3, 4, 4]]"

text \<open>A two-rectangle feature over a box one row high and two columns wide.\<close>

definition edge_feature :: HaarFeature where
  "edge_feature = \<lparr>feature_type = ''two-rect'', position = (0, 0), width = 2, height = 1\<rparr>"


section \<open>Arithmetic modulo \<open>2^64\<close>\<close>

lemma wrap64_int64: "int64 (wrap64 v)"
proof -
  have "0 \<le> (v + 2 ^ 63) mod 2 ^ 64" "(v + 2 ^ 63) mod 2 ^ 64 < (2 ^ 64 :: int)"
    by simp_all
  then show ?thesis by (simp add: wrap64_def int64_def)
qed

lemma wrap64_id: "int64 v \<Longrightarrow> wrap64 v = v"
  by (simp add: wrap64_def int64_def)

lemma wrap64_mod: "wrap64 v mod 2 ^ 64 = v mod 2 ^ 64"
proof -
  have "wrap64 v mod 2 ^ 64 = ((v + 2 ^ 63) mod 2 ^ 64 - 2 ^ 63) mod 2 ^ 64"
    by (simp add: wrap64_def)
  also have "\<dots> = (v + 2 ^ 63 - 2 ^ 63) mod 2 ^ 64"
    by (rule mod_diff_left_eq)
  finally show ?thesis by simp
qed

lemma wrap64_eqI: "a mod 2 ^ 64 = b mod 2 ^ 64 \<Longrightarrow> wrap64 a = wrap64 b"
proof -
  assume "a mod 2 ^ 64 = b mod 2 ^ 64"
  then have "(a + 2 ^ 63) mod 2 ^ 64 = (b + 2 ^ 63) mod 2 ^ 64"
    by (rule mod_add_cong) simp
  then show ?thesis by (simp add: wrap64_def)
qed

lemma wrap64_add_left: "wrap64 (wrap64 a + b) = wrap64 (a + b)"
  by (rule wrap64_eqI, rule mod_add_cong, rule wrap64_mod, rule refl)

lemma wrap64_diff: "wrap64 (wrap64 a - wrap64 b) = wrap64 (a - b)"
  by (rule wrap64_eqI, rule mod_diff_cong, rule wrap64_mod, rule wrap64_mod)

lemma wrap64_sum: "wrap64 (\<Sum>i\<in>A. wrap64 (f i)) = wrap64 (\<Sum>i\<in>A. f i)"
proof (rule wrap64_eqI)
  have "(\<Sum>i\<in>A. wrap64 (f i)) mod 2 ^ 64 = (\<Sum>i\<in>A. wrap64 (f i) mod 2 ^ 64) mod 2 ^ 64"
    by (rule mod_sum_eq [symmetric])
  also have "\<dots> = (\<Sum>i\<in>A. f i mod 2 ^ 64) mod 2 ^ 64"
    by (simp only: wrap64_mod)
  also have "\<dots> = (\<Sum>i\<in>A. f i) mod 2 ^ 64"
    by (rule mod_sum_eq)
  finally show "(\<Sum>i\<in>A. wrap64 (f i)) mod 2 ^ 64 = (\<Sum>i\<in>A. f i) mod 2 ^ 64" .
qed

section \<open>Cascade stages and the cascade\<close>

lemma predict_cases: "predict c int_img = 0 \<or> predict c int_img = 1"
  by (simp add: predict_def Let_def)

lemma stage_sum_loop_eq:
  "stage_sum_loop clfs int_img (s, calls) =
     (s + sum_list (map (\<lambda>clf. predict clf int_img) clfs), calls @ clfs)"
  by (induction clfs arbitrary: s calls) simp_all


lemma classify_log_eq:
  "classify_log stage int_img calls = (classify stage int_img, calls @ classifiers stage)"
  by (simp add: classify_log_def classify_def stage_sum_loop_eq)

lemma detect_loop_eq:
  "detect_loop sts int_img calls =
     (list_all (\<lambda>s. classify s int_img) sts,
      calls @ concat (map classifiers
        (takeWhile (\<lambda>s. classify s int_img) sts @
         take 1 (dropWhile (\<lambda>s. classify s int_img) sts))))"
  by (induction sts arbitrary: calls) (simp_all add: classify_log_eq)

section \<open>The integral image as a table of prefix sums\<close>

lemma length_cumsum_from: "length (cumsum_from a xs) = length xs"
  by (induction xs arbitrary: a) (simp_all add: Let_def)

lemma nth_cumsum_from:
  "i < length xs \<Longrightarrow> cumsum_from a xs ! i = wrap64 (a + sum_list (take (Suc i) xs))"
proof (induction xs arbitrary: a i)
  case Nil
  then show ?case by simp
next
  case (Cons x xs)
  show ?case
  proof (cases i)
    case 0
    then show ?thesis by (simp add: Let_def)
  next
    case (Suc k)
    with Cons.prems have "k < length xs" by simp
    from Cons.IH [OF this, of "wrap64 (a + x)"] Suc show ?thesis
      by (simp add: Let_def wrap64_add_left add.assoc)
  qed
qed

lemma sum_list_take_nth:
  "n \<le> length xs \<Longrightarrow> sum_list (take n xs) = (\<Sum>c = 0..<n. (xs ! c :: int))"
proof -
  assume n: "n \<le> length xs"
  have "sum_list (take n xs) = (\<Sum>c = 0..<length (take n xs). take n xs ! c)"
    by (rule sum_list_sum_nth)
  also have "\<dots> = (\<Sum>c = 0..<n. xs ! c)"
    using n by (intro sum.cong) simp_all
  finally show ?thesis .
qed

lemma length_cumsum: "length (cumsum xs) = length xs"
  by (simp add: cumsum_def length_cumsum_from)

lemma nth_cumsum:
  "i < length xs \<Longrightarrow> cumsum xs ! i = wrap64 (\<Sum>c = 0..<Suc i. xs ! c)"
  by (simp add: cumsum_def nth_cumsum_from sum_list_take_nth del: sum.op_ivl_Suc)

lemma length_cumsum_rows_from: "length (cumsum_rows_from acc rs) = length rs"
  by (induction rs arbitrary: acc) (simp_all add: Let_def)

lemma cumsum_rows_from_row:
  assumes "\<forall>r\<in>set rs. length r = n" "length acc = n" "i < length rs"
  shows "length (cumsum_rows_from acc rs ! i) = n \<and>
         (\<forall>j<n. cumsum_rows_from acc rs ! i ! j
                  = wrap64 (acc ! j + (\<Sum>r = 0..<Suc i. rs ! r ! j)))"
  using assms
proof (induction rs arbitrary: acc i)
  case Nil
  then show ?case by simp
next
  case (Cons r rs)
  let ?a = "map2 (\<lambda>p q. wrap64 (p + q)) acc r"
  have len_r: "length r = n" using Cons.prems(1) by simp
  have len_a: "length ?a = n" using len_r Cons.prems(2) by simp
  have a_nth: "\<forall>j<n. ?a ! j = wrap64 (acc ! j + r ! j)"
    using len_r Cons.prems(2) by simp
  show ?case
  proof (cases i)
    case 0
    with len_a a_nth show ?thesis by (simp add: Let_def)
  next
    case (Suc k)
    with Cons.prems have k: "k < length rs" by simp
    have rest: "\<forall>r\<in>set rs. length r = n" using Cons.prems(1) by simp
    from Cons.IH [OF rest len_a k]
    have IH: "length (cumsum_rows_from ?a rs ! k) = n"
      "\<forall>j<n. cumsum_rows_from ?a rs ! k ! j = wrap64 (?a ! j + (\<Sum>r = 0..<Suc k. rs ! r ! j))"
      by simp_all
    have shift: "(\<Sum>q = 0..<Suc (Suc k). (r # rs) ! q ! j) = r ! j + (\<Sum>q = 0..<Suc k. rs ! q ! j)" for j
      by (simp add: sum.atLeast0_lessThan_Suc_shift del: sum.op_ivl_Suc)
    have "cumsum_rows_from acc (r # rs) ! i ! j
        = wrap64 (acc ! j + (\<Sum>q = 0..<Suc i. (r # rs) ! q ! j))" if "j < n" for j
    proof -
      have "cumsum_rows_from acc (r # rs) ! i ! j
          = wrap64 (wrap64 (acc ! j + r ! j) + (\<Sum>q = 0..<Suc k. rs ! q ! j))"
        using IH(2) a_nth that Suc by (simp add: Let_def del: sum.op_ivl_Suc)
      also have "\<dots> = wrap64 (acc ! j + r ! j + (\<Sum>q = 0..<Suc k. rs ! q ! j))"
        by (rule wrap64_add_left)
      finally show ?thesis by (simp only: Suc shift add.assoc)
    qed
    moreover have "length (cumsum_rows_from acc (r # rs) ! i) = n"
      using IH(1) Suc by (simp add: Let_def)
    ultimately show ?thesis by simp
  qed
qed

lemma rectangular_rows:
  "rectangular img \<Longrightarrow> \<forall>r\<in>set img. length r = nat (shape1 img)"
  by (auto simp add: rectangular_def list_all_iff)

lemma dtype_int64_nth:
  "dtype_int64 img \<Longrightarrow> r < length img \<Longrightarrow> c < length (img ! r) \<Longrightarrow> int64 (img ! r ! c)"
  by (simp add: dtype_int64_def list_all_length)

lemma cumsum_axis0_row:
  assumes "\<forall>r\<in>set img. length r = n" "dtype_int64 img" "i < length img"
  shows "length (cumsum_axis0 img ! i) = n \<and>
         (\<forall>j<n. cumsum_axis0 img ! i ! j = wrap64 (\<Sum>r = 0..<Suc i. img ! r ! j))"
proof (cases img)
  case Nil
  with assms show ?thesis by simp
next
  case (Cons r rs)
  have len_r: "length r = n" using Cons assms(1) by simp
  show ?thesis
  proof (cases i)
    case 0
    have "int64 (r ! j)" if "j < n" for j
      using dtype_int64_nth [OF assms(2), of 0 j] that Cons len_r by simp
    then show ?thesis
      using 0 Cons len_r by (simp add: cumsum_axis0_def wrap64_id)
  next
    case (Suc k)
    with Cons assms have k: "k < length rs" by simp
    have rest: "\<forall>r\<in>set rs. length r = n"
      using Cons assms(1) by simp
    have shift: "(\<Sum>q = 0..<Suc (Suc k). (r # rs) ! q ! j) = r ! j + (\<Sum>q = 0..<Suc k. rs ! q ! j)" for j
      by (simp add: sum.atLeast0_lessThan_Suc_shift del: sum.op_ivl_Suc)
    from cumsum_rows_from_row [OF rest len_r k] show ?thesis
      using Cons Suc by (simp add: cumsum_axis0_def shift del: sum.op_ivl_Suc)
  qed
qed

lemma length_cumsum_axis0: "length (cumsum_axis0 img) = length img"
  by (cases img) (simp_all add: cumsum_axis0_def length_cumsum_rows_from)

lemma length_integral_image: "length (integral_image img) = length img"
  by (simp add: integral_image_def cumsum_axis1_def length_cumsum_axis0)

lemma integral_image_row:
  assumes "\<forall>r\<in>set img. length r = n" "dtype_int64 img" "y < length img"
  shows "length (integral_image img ! y) = n \<and>
         (\<forall>x<n. integral_image img ! y ! x
                  = wrap64 (\<Sum>c = 0..<Suc x. \<Sum>r = 0..<Suc y. img ! r ! c))"
proof -
  from cumsum_axis0_row [OF assms]
  have row: "length (cumsum_axis0 img ! y) = n"
    "\<forall>j<n. cumsum_axis0 img ! y ! j = wrap64 (\<Sum>r = 0..<Suc y. img ! r ! j)"
    by simp_all
  have eq: "integral_image img ! y = cumsum (cumsum_axis0 img ! y)"
    using assms(3) by (simp add: integral_image_def cumsum_axis1_def length_cumsum_axis0)
  have "integral_image img ! y ! x = wrap64 (\<Sum>c = 0..<Suc x. \<Sum>r = 0..<Suc y. img ! r ! c)"
    if "x < n" for x
  proof -
    have "integral_image img ! y ! x = wrap64 (\<Sum>c = 0..<Suc x. cumsum_axis0 img ! y ! c)"
      using that row(1) by (simp add: eq nth_cumsum del: sum.op_ivl_Suc)
    also have "(\<Sum>c = 0..<Suc x. cumsum_axis0 img ! y ! c)
        = (\<Sum>c = 0..<Suc x. wrap64 (\<Sum>r = 0..<Suc y. img ! r ! c))"
      using that row(2) by (intro sum.cong) simp_all
    also have "wrap64 \<dots> = wrap64 (\<Sum>c = 0..<Suc x. \<Sum>r = 0..<Suc y. img ! r ! c)"
      by (rule wrap64_sum)
    finally show ?thesis .
  qed
  with row(1) eq show ?thesis by (simp add: length_cumsum)
qed

text \<open>Sums of entries are bounded by the sum of the absolute values.\<close>

lemma sum_list_map_nth:
  fixes f :: "'a \<Rightarrow> int"
  shows "sum_list (map f xs) = (\<Sum>i = 0..<length xs. f (xs ! i))"
proof -
  have "sum_list (map f xs) = (\<Sum>i = 0..<length (map f xs). map f xs ! i)"
    by (rule sum_list_sum_nth)
  also have "\<dots> = (\<Sum>i = 0..<length xs. f (xs ! i))"
    by (intro sum.cong) simp_all
  finally show ?thesis .
qed

lemma abs_total_eq:
  assumes "\<forall>r\<in>set img. length r = n"
  shows "abs_total img = (\<Sum>r = 0..<length img. \<Sum>c = 0..<n. \<bar>img ! r ! c\<bar>)"
proof -
  have "abs_total img = (\<Sum>r = 0..<length img. sum_list (map abs (img ! r)))"
    by (simp add: abs_total_def sum_list_map_nth)
  also have "\<dots> = (\<Sum>r = 0..<length img. \<Sum>c = 0..<n. \<bar>img ! r ! c\<bar>)"
    using assms by (intro sum.cong) (simp_all add: sum_list_map_nth)
  finally show ?thesis .
qed

lemma region_bound:
  assumes "\<forall>r\<in>set img. length r = n" "y1 \<le> length img" "x1 \<le> n"
  shows "\<bar>\<Sum>r = y0..<y1. \<Sum>c = x0..<x1. img ! r ! c\<bar> \<le> abs_total img"
proof -
  have "\<bar>\<Sum>r = y0..<y1. \<Sum>c = x0..<x1. img ! r ! c\<bar>
      \<le> (\<Sum>r = y0..<y1. \<bar>\<Sum>c = x0..<x1. img ! r ! c\<bar>)"
    by (rule sum_abs)
  also have "\<dots> \<le> (\<Sum>r = y0..<y1. \<Sum>c = x0..<x1. \<bar>img ! r ! c\<bar>)"
    by (intro sum_mono sum_abs)
  also have "\<dots> \<le> (\<Sum>r = y0..<y1. \<Sum>c = 0..<n. \<bar>img ! r ! c\<bar>)"
    using assms(3) by (intro sum_mono sum_mono2) auto
  also have "\<dots> \<le> (\<Sum>r = 0..<length img. \<Sum>c = 0..<n. \<bar>img ! r ! c\<bar>)"
    using assms(2) by (intro sum_mono2) (auto intro: sum_nonneg)
  also have "\<dots> = abs_total img"
    by (rule abs_total_eq [OF assms(1), symmetric])
  finally show ?thesis .
qed

lemma integral_image_exact:
  assumes "\<forall>r\<in>set img. length r = n" "dtype_int64 img" "abs_total img < 2 ^ 63"
    "y < length img" "x < n"
  shows "integral_image img ! y ! x = (\<Sum>c = 0..<Suc x. \<Sum>r = 0..<Suc y. img ! r ! c)"
proof -
  have "\<bar>\<Sum>r = 0..<Suc y. \<Sum>c = 0..<Suc x. img ! r ! c\<bar> \<le> abs_total img"
    using assms(4,5) by (intro region_bound [OF assms(1)]) simp_all
  also have "(\<Sum>r = 0..<Suc y. \<Sum>c = 0..<Suc x. img ! r ! c)
      = (\<Sum>c = 0..<Suc x. \<Sum>r = 0..<Suc y. img ! r ! c)"
    by (rule sum.swap)
  finally have "int64 (\<Sum>c = 0..<Suc x. \<Sum>r = 0..<Suc y. img ! r ! c)"
    using assms(3) by (simp add: int64_def abs_le_iff del: sum.op_ivl_Suc)
  then show ?thesis
    using integral_image_row [OF assms(1,2,4)] assms(5) by (simp add: wrap64_id del: sum.op_ivl_Suc)
qed

lemma length_cumsum_axis0_row:
  assumes "\<forall>r\<in>set img. length r = n" "i < length img"
  shows "length (cumsum_axis0 img ! i) = n"
proof (cases img)
  case Nil
  with assms show ?thesis by simp
next
  case (Cons r rs)
  have len_r: "length r = n" and rest: "\<forall>r\<in>set rs. length r = n"
    using Cons assms(1) by simp_all
  show ?thesis
  proof (cases i)
    case 0
    with Cons len_r show ?thesis by (simp add: cumsum_axis0_def)
  next
    case (Suc k)
    with Cons assms have k: "k < length rs" by simp
    from cumsum_rows_from_row [OF rest len_r k] show ?thesis
      using Cons Suc by (simp add: cumsum_axis0_def)
  qed
qed

lemma length_integral_image_row:
  assumes "\<forall>r\<in>set img. length r = n" "y < length img"
  shows "length (integral_image img ! y) = n"
  using assms length_cumsum_axis0_row [OF assms]
  by (simp add: integral_image_def cumsum_axis1_def length_cumsum_axis0 length_cumsum)

lemma int64_cumsum_from: "list_all int64 (cumsum_from a xs)"
  by (induction xs arbitrary: a) (simp_all add: Let_def wrap64_int64)

lemma dtype_int64_integral_image: "dtype_int64 (integral_image img)"
  by (simp add: dtype_int64_def integral_image_def cumsum_axis1_def cumsum_def
      list_all_iff int64_cumsum_from [unfolded list_all_iff])

lemma spec_brute_sum_eq:
  "spec_brute_sum img y0 y1 x0 x1 = (\<Sum>r = y0..<y1. \<Sum>c = x0..<x1. img ! r ! c)"
  by (simp add: spec_brute_sum_def interv_sum_list_conv_sum_set_nat)

lemma interval_diff:
  fixes g :: "nat \<Rightarrow> int"
  assumes "a \<le> b"
  shows "(\<Sum>k = 0..<b. g k) - (\<Sum>k = 0..<a. g k) = (\<Sum>k = a..<b. g k)"
  using sum.atLeastLessThan_concat [of 0 a b g] assms by simp

lemma inclusion_exclusion:
  fixes f :: "nat \<Rightarrow> nat \<Rightarrow> int"
  assumes "y0 \<le> y1" "x0 \<le> x1"
  shows "(\<Sum>r = 0..<y1. \<Sum>c = 0..<x1. f r c) - (\<Sum>r = 0..<y0. \<Sum>c = 0..<x1. f r c)
         - (\<Sum>r = 0..<y1. \<Sum>c = 0..<x0. f r c) + (\<Sum>r = 0..<y0. \<Sum>c = 0..<x0. f r c)
       = (\<Sum>r = y0..<y1. \<Sum>c = x0..<x1. f r c)"
proof -
  have "(\<Sum>r = y0..<y1. \<Sum>c = x0..<x1. f r c)
      = (\<Sum>r = y0..<y1. (\<Sum>c = 0..<x1. f r c) - (\<Sum>c = 0..<x0. f r c))"
    using assms(2) by (simp add: interval_diff)
  also have "\<dots> = (\<Sum>r = y0..<y1. \<Sum>c = 0..<x1. f r c) - (\<Sum>r = y0..<y1. \<Sum>c = 0..<x0. f r c)"
    by (simp add: sum_subtractf)
  also have "\<dots> = ((\<Sum>r = 0..<y1. \<Sum>c = 0..<x1. f r c) - (\<Sum>r = 0..<y0. \<Sum>c = 0..<x1. f r c))
      - ((\<Sum>r = 0..<y1. \<Sum>c = 0..<x0. f r c) - (\<Sum>r = 0..<y0. \<Sum>c = 0..<x0. f r c))"
    using assms(1) by (simp add: interval_diff)
  finally show ?thesis by simp
qed

lemma spec_at_prefix:
  assumes "\<forall>r\<in>set img. length r = n" "dtype_int64 img" "abs_total img < 2 ^ 63"
    "y \<le> length img" "x \<le> n"
  shows "spec_at (integral_image img) (int y - 1) (int x - 1)
       = (\<Sum>r = 0..<y. \<Sum>c = 0..<x. img ! r ! c)"
proof (cases "y = 0 \<or> x = 0")
  case True
  then show ?thesis by (auto simp add: spec_at_def)
next
  case False
  then obtain y' x' where yx: "y = Suc y'" "x = Suc x'"
    by (auto simp add: gr0_conv_Suc)
  with assms have "y' < length img" "x' < n" by simp_all
  then have "integral_image img ! y' ! x' = (\<Sum>c = 0..<Suc x'. \<Sum>r = 0..<Suc y'. img ! r ! c)"
    by (rule integral_image_exact [OF assms(1,2,3)])
  also have "\<dots> = (\<Sum>r = 0..<Suc y'. \<Sum>c = 0..<Suc x'. img ! r ! c)"
    by (rule sum.swap)
  finally show ?thesis
    using yx by (simp add: spec_at_def del: sum.op_ivl_Suc)
qed

lemma corner_sum_brute:
  assumes "\<forall>r\<in>set img. length r = n" "dtype_int64 img" "abs_total img < 2 ^ 63"
    "y0 \<le> y1" "y1 \<le> length img" "x0 \<le> x1" "x1 \<le> n"
  shows "spec_corner_sum (integral_image img) y0 y1 x0 x1 = spec_brute_sum img y0 y1 x0 x1"
proof -
  have "y0 \<le> length img" "x0 \<le> n" using assms by simp_all
  then show ?thesis
    using assms(4-7)
    by (simp add: spec_corner_sum_def spec_at_prefix [OF assms(1,2,3)] spec_brute_sum_eq
        inclusion_exclusion)
qed

lemma integral_image_shape:
  assumes "rectangular img"
  shows "rectangular (integral_image img) \<and> shape1 (integral_image img) = shape1 img"
proof (cases img)
  case Nil
  then show ?thesis
    by (simp add: integral_image_def cumsum_axis0_def cumsum_axis1_def rectangular_def shape1_def)
next
  case (Cons r rs)
  let ?n = "nat (shape1 img)"
  have rows: "\<forall>r\<in>set img. length r = ?n" using assms by (rule rectangular_rows)
  have len: "length (integral_image img ! y) = ?n" if "y < length img" for y
    using length_integral_image_row [OF rows that] by simp
  have "integral_image img \<noteq> []"
    using Cons length_integral_image [of img] by auto
  then obtain q qs where I: "integral_image img = q # qs" by (cases "integral_image img") auto
  have "length q = ?n" using len [of 0] Cons I by simp
  then have sh: "shape1 (integral_image img) = shape1 img"
    using I Cons by (simp add: shape1_def)
  have "\<forall>r\<in>set (integral_image img). length r = ?n"
    using len by (auto simp add: in_set_conv_nth length_integral_image)
  then have "rectangular (integral_image img)"
    using sh Cons by (auto simp add: rectangular_def list_all_iff shape1_def)
  with sh show ?thesis by simp
qed

section \<open>The windows the scanner visits\<close>

lemma scan_row_eq:
  "scan_row img cascade ws y xs acc =
     acc @ map (\<lambda>x. (x, y, fst ws, snd ws))
       (filter (\<lambda>x. detect cascade (slice2 y (y + snd ws) x (x + fst ws) img)) xs)"
  by (induction xs arbitrary: acc) (simp_all add: Let_def)

lemma scan_rows_eq:
  "py_range (shape1 img - fst ws) step = Inr xs \<Longrightarrow>
   scan_rows img cascade ws step ys acc =
     Inr (acc @ concat (map (\<lambda>y. scan_row img cascade ws y xs []) ys))"
proof (induction ys arbitrary: acc)
  case Nil
  show ?case by simp
next
  case (Cons y ys)
  have "scan_row img cascade ws y xs acc = acc @ scan_row img cascade ws y xs []"
    by (simp add: scan_row_eq)
  with Cons show ?case by simp
qed

lemma range_len_bound:
  assumes "0 < step" "k < range_len stop step"
  shows "int k * step < stop"
proof -
  from assms have pos: "0 < stop" by (auto simp add: range_len_def split: if_splits)
  with assms have "int k < (stop - 1) div step + 1" by (simp add: range_len_def)
  then have "int k \<le> (stop - 1) div step" by simp
  then have "int k * step \<le> ((stop - 1) div step) * step"
    using assms(1) by (simp add: mult_right_mono)
  also have "\<dots> \<le> stop - 1"
  proof -
    have "(stop - 1) div step * step + (stop - 1) mod step = stop - 1" by simp
    moreover have "0 \<le> (stop - 1) mod step" using assms(1) by simp
    ultimately show ?thesis by linarith
  qed
  finally show ?thesis by simp
qed

lemma py_range_mem:
  assumes "0 < step" "py_range stop step = Inr xs" "x \<in> set xs"
  shows "0 \<le> x \<and> x < stop \<and> step dvd x"
proof -
  from assms obtain k where k: "k < range_len stop step" "x = int k * step"
    by (auto simp add: py_range_def)
  with assms(1) range_len_bound [OF assms(1) k(1)] show ?thesis by simp
qed

lemma py_range_empty:
  assumes "0 < step" "stop \<le> 0"
  shows "py_range stop step = Inr []"
  using assms by (simp add: py_range_def range_len_def)

lemma scan_row_mem:
  "r \<in> set (scan_row img cascade ws y xs []) \<Longrightarrow>
   \<exists>x\<in>set xs. r = (x, y, fst ws, snd ws)"
  by (auto simp add: scan_row_eq)

section \<open>Slices\<close>

lemma slice_index_le: "slice_index n i \<le> n"
  by (auto simp add: slice_index_def)

lemma slice_index_nonneg: "0 \<le> i \<Longrightarrow> slice_index n i = min (nat i) n"
  by (simp add: slice_index_def)

lemma take_drop_nth:
  assumes "e \<le> length xs"
  shows "take (e - s) (drop s xs) = map ((!) xs) [s..<e]"
proof (rule nth_equalityI)
  show "length (take (e - s) (drop s xs)) = length (map ((!) xs) [s..<e])"
    using assms by simp
next
  fix i
  assume "i < length (take (e - s) (drop s xs))"
  then have "i < e - s" by simp
  then show "take (e - s) (drop s xs) ! i = map ((!) xs) [s..<e] ! i"
    using assms by (simp add: nth_map_upt)
qed

lemma py_slice_nth:
  "py_slice a b xs = map ((!) xs) [slice_index (length xs) a..<slice_index (length xs) b]"
  by (simp add: py_slice_def Let_def take_drop_nth [OF slice_index_le])

lemma array_sum_slice2:
  assumes "rectangular img"
  shows "array_sum (slice2 y0 y1 x0 x1 img) =
         wrap64 (spec_brute_sum img (slice_index (length img) y0) (slice_index (length img) y1)
           (slice_index (nat (shape1 img)) x0) (slice_index (nat (shape1 img)) x1))"
proof -
  let ?H = "length img" and ?W = "nat (shape1 img)"
  let ?sy = "slice_index ?H y0" and ?ey = "slice_index ?H y1"
  have rows: "\<forall>r\<in>set img. length r = ?W" using assms by (rule rectangular_rows)
  have row: "sum_list (py_slice x0 x1 (img ! r)) =
      sum_list (map (\<lambda>c. img ! r ! c) [slice_index ?W x0..<slice_index ?W x1])"
    if "r \<in> set [?sy..<?ey]" for r
  proof -
    from that have "r < ?H" using slice_index_le [of ?H y1] by simp
    with rows have "length (img ! r) = ?W" by simp
    then show ?thesis by (simp add: py_slice_nth)
  qed
  have "sum_list (map sum_list (slice2 y0 y1 x0 x1 img)) =
      sum_list (map (\<lambda>r. sum_list (py_slice x0 x1 (img ! r))) [?sy..<?ey])"
    by (simp add: slice2_def py_slice_nth [of y0 y1 img] comp_def)
  also have "\<dots> = sum_list (map (\<lambda>r. sum_list (map (\<lambda>c. img ! r ! c)
      [slice_index ?W x0..<slice_index ?W x1])) [?sy..<?ey])"
  proof -
    have "map (\<lambda>r. sum_list (py_slice x0 x1 (img ! r))) [?sy..<?ey] =
        map (\<lambda>r. sum_list (map (\<lambda>c. img ! r ! c)
          [slice_index ?W x0..<slice_index ?W x1])) [?sy..<?ey]"
      by (rule map_cong) (simp_all only: row)
    then show ?thesis by (rule arg_cong)
  qed
  finally show ?thesis by (simp add: array_sum_def spec_brute_sum_def)
qed

lemma spec_brute_sum_bound:
  assumes "rectangular img" "y1 \<le> length img" "x1 \<le> nat (shape1 img)"
  shows "\<bar>spec_brute_sum img y0 y1 x0 x1\<bar> \<le> abs_total img"
  unfolding spec_brute_sum_eq
  by (rule region_bound [OF rectangular_rows [OF assms(1)] assms(2,3)])

lemma array_sum_slice2_small:
  assumes "rectangular img" "abs_total img < 2 ^ 62"
  shows "\<bar>array_sum (slice2 y0 y1 x0 x1 img)\<bar> < 2 ^ 62"
proof -
  let ?s = "spec_brute_sum img (slice_index (length img) y0) (slice_index (length img) y1)
           (slice_index (nat (shape1 img)) x0) (slice_index (nat (shape1 img)) x1)"
  have "\<bar>?s\<bar> \<le> abs_total img"
    by (rule spec_brute_sum_bound [OF assms(1) slice_index_le slice_index_le])
  with assms(2) have small: "\<bar>?s\<bar> < 2 ^ 62" by simp
  then have "int64 ?s" by (simp add: int64_def abs_less_iff)
  then have "array_sum (slice2 y0 y1 x0 x1 img) = ?s"
    by (simp add: array_sum_slice2 [OF assms(1)] wrap64_id)
  with small show ?thesis by simp
qed

lemma compute_int64: "int64 (compute f int_img)"
  by (simp add: compute_def Let_def split_beta wrap64_int64) (simp add: int64_def)

lemma compute_above_min:
  assumes "rectangular int_img" "abs_total int_img < 2 ^ 62"
  shows "- (2 ^ 63) < compute f int_img"
proof (cases "feature_type f = ''two-rect''")
  case False
  then show ?thesis by (simp add: compute_def Let_def split_beta)
next
  case True
  obtain x y where pos: "position f = (x, y)" by (cases "position f")
  let ?white = "array_sum (slice2 y (y + height f) x (x + width f div 2) int_img)"
  let ?black = "array_sum (slice2 y (y + height f) (x + width f div 2) (x + width f) int_img)"
  have "\<bar>?white\<bar> < 2 ^ 62" "\<bar>?black\<bar> < 2 ^ 62"
    by (rule array_sum_slice2_small [OF assms])+
  then have d: "- (2 ^ 63) < ?white - ?black" "?white - ?black < 2 ^ 63"
    by (simp_all add: abs_less_iff)
  then have "int64 (?white - ?black)" by (simp add: int64_def)
  then have "compute f int_img = ?white - ?black"
    using True pos by (simp add: compute_def Let_def wrap64_id)
  with d show ?thesis by simp
qed

section \<open>The search of the trainers\<close>


lemma search_best_spec:
  assumes "\<forall>c\<in>set cs. acc c = Inr (score c)"
  shows "(search_best acc cs (b0, a0) = Inr (b0, a0) \<and> (\<forall>c\<in>set cs. score c \<le> a0)) \<or>
         (\<exists>pre c post. cs = pre @ c # post \<and> a0 < score c \<and>
            (\<forall>d\<in>set pre. score d < score c) \<and> (\<forall>d\<in>set post. score d \<le> score c) \<and>
            search_best acc cs (b0, a0) = Inr (Some c, score c))"
  using assms
proof (induction cs arbitrary: b0 a0)
  case Nil
  show ?case by simp
next
  case (Cons x xs)
  have accx: "acc x = Inr (score x)" and rest: "\<forall>c\<in>set xs. acc c = Inr (score c)"
    using Cons.prems by simp_all
  show ?case
  proof (cases "a0 < score x")
    case True
    then have step: "search_best acc (x # xs) (b0, a0) = search_best acc xs (Some x, score x)"
      by (simp add: accx)
    from Cons.IH [OF rest, of "Some x" "score x"] show ?thesis
    proof
      assume "search_best acc xs (Some x, score x) = Inr (Some x, score x) \<and>
          (\<forall>c\<in>set xs. score c \<le> score x)"
      then have "x # xs = [] @ x # xs \<and> a0 < score x \<and> (\<forall>d\<in>set []. score d < score x) \<and>
          (\<forall>d\<in>set xs. score d \<le> score x) \<and>
          search_best acc (x # xs) (b0, a0) = Inr (Some x, score x)"
        using True step by simp
      then show ?thesis by blast
    next
      assume "\<exists>pre c post. xs = pre @ c # post \<and> score x < score c \<and>
          (\<forall>d\<in>set pre. score d < score c) \<and> (\<forall>d\<in>set post. score d \<le> score c) \<and>
          search_best acc xs (Some x, score x) = Inr (Some c, score c)"
      then obtain pre c post where h: "xs = pre @ c # post" "score x < score c"
          "\<forall>d\<in>set pre. score d < score c" "\<forall>d\<in>set post. score d \<le> score c"
          "search_best acc xs (Some x, score x) = Inr (Some c, score c)"
        by blast
      have "x # xs = (x # pre) @ c # post \<and> a0 < score c \<and>
          (\<forall>d\<in>set (x # pre). score d < score c) \<and> (\<forall>d\<in>set post. score d \<le> score c) \<and>
          search_best acc (x # xs) (b0, a0) = Inr (Some c, score c)"
        using h True step by simp
      then show ?thesis by blast
    qed
  next
    case False
    then have step: "search_best acc (x # xs) (b0, a0) = search_best acc xs (b0, a0)"
      by (simp add: accx)
    from Cons.IH [OF rest, of b0 a0] show ?thesis
    proof
      assume "search_best acc xs (b0, a0) = Inr (b0, a0) \<and> (\<forall>c\<in>set xs. score c \<le> a0)"
      then show ?thesis using False step by simp
    next
      assume "\<exists>pre c post. xs = pre @ c # post \<and> a0 < score c \<and>
          (\<forall>d\<in>set pre. score d < score c) \<and> (\<forall>d\<in>set post. score d \<le> score c) \<and>
          search_best acc xs (b0, a0) = Inr (Some c, score c)"
      then obtain pre c post where h: "xs = pre @ c # post" "a0 < score c"
          "\<forall>d\<in>set pre. score d < score c" "\<forall>d\<in>set post. score d \<le> score c"
          "search_best acc xs (b0, a0) = Inr (Some c, score c)"
        by blast
      have "x # xs = (x # pre) @ c # post \<and> a0 < score c \<and>
          (\<forall>d\<in>set (x # pre). score d < score c) \<and> (\<forall>d\<in>set post. score d \<le> score c) \<and>
          search_best acc (x # xs) (b0, a0) = Inr (Some c, score c)"
        using h False step by simp
      then show ?thesis by blast
    qed
  qed
qed

lemma search_best_first_max:
  fixes cnt :: "WeakClassifier \<Rightarrow> nat"
  assumes acc: "\<forall>c\<in>set cs. acc c = Inr (of_nat (cnt c) / of_nat n)"
    and total: "0 < n" and some: "\<exists>c\<in>set cs. 0 < cnt c"
  shows "\<exists>pre c post. cs = pre @ c # post \<and>
           search_best acc cs (None, 0) = Inr (Some c, of_nat (cnt c) / of_nat n) \<and>
           (\<forall>d\<in>set pre. cnt d < cnt c) \<and> (\<forall>d\<in>set post. cnt d \<le> cnt c)"
proof -
  let ?score = "\<lambda>c. (of_nat (cnt c) / of_nat n :: rat)"
  have lt: "?score d < ?score c \<longleftrightarrow> cnt d < cnt c" for d c
    using total by (simp add: divide_less_cancel)
  have le: "?score d \<le> ?score c \<longleftrightarrow> cnt d \<le> cnt c" for d c
    using total by (simp add: divide_le_cancel)
  from some obtain c0 where c0: "c0 \<in> set cs" "0 < cnt c0" by blast
  then have "0 < ?score c0" using total by simp
  then have "\<not> (\<forall>c\<in>set cs. ?score c \<le> 0)" using c0(1) by (auto simp add: not_le)
  with search_best_spec [OF acc, of None 0]
  obtain pre c post where h: "cs = pre @ c # post"
      "\<forall>d\<in>set pre. ?score d < ?score c" "\<forall>d\<in>set post. ?score d \<le> ?score c"
      "search_best acc cs (None, 0) = Inr (Some c, ?score c)"
    by blast
  then show ?thesis by (auto simp only: lt le)
qed

lemma candidates_mem:
  assumes "t \<in> set (linspace (- 1) 1 10)" "p = 1 \<or> p = - 1"
  shows "\<lparr>feature = f, WeakClassifier.threshold = t, polarity = p\<rparr> \<in> set (candidates f)"
  using assms by (auto simp add: candidates_def)

lemma inner_threshold: "- (7 / 9) \<in> set (linspace (- 1) 1 10)"
  by code_simp

lemma predict_pair_one:
  "predict \<lparr>feature = f, WeakClassifier.threshold = - (7 / 9), polarity = 1\<rparr> int_img = 1 \<or>
   predict \<lparr>feature = f, WeakClassifier.threshold = - (7 / 9), polarity = - 1\<rparr> int_img = 1"
proof (cases "compute f int_img \<le> - 1")
  case True
  then have "(of_int (compute f int_img) :: rat) \<le> of_int (- 1)"
    by (simp only: of_int_le_iff)
  then have "(of_int (compute f int_img) :: rat) \<le> - 1" by simp
  then show ?thesis by (simp add: predict_def wrap64_id [OF compute_int64])
next
  case False
  then have nonneg: "0 \<le> compute f int_img" by simp
  have "int64 (compute f int_img)" by (rule compute_int64)
  with nonneg have "int64 (- compute f int_img)" by (simp add: int64_def)
  then have "wrap64 (- compute f int_img) = - compute f int_img" by (rule wrap64_id)
  moreover have "(of_int (- compute f int_img) :: rat) \<le> 0" using nonneg by simp
  ultimately show ?thesis by (simp add: predict_def)
qed

lemma predict_pair_zero:
  assumes "- (2 ^ 63) < compute f int_img"
  shows "predict \<lparr>feature = f, WeakClassifier.threshold = - (7 / 9), polarity = 1\<rparr> int_img = 0 \<or>
         predict \<lparr>feature = f, WeakClassifier.threshold = - (7 / 9), polarity = - 1\<rparr> int_img = 0"
proof (cases "compute f int_img \<le> - 1")
  case True
  have "int64 (compute f int_img)" by (rule compute_int64)
  with assms have "int64 (- compute f int_img)" by (simp add: int64_def)
  then have "wrap64 (- compute f int_img) = - compute f int_img" by (rule wrap64_id)
  moreover have "(1::rat) \<le> of_int (- compute f int_img)"
    using True by (simp only: of_int_1_le_iff)
  ultimately show ?thesis by (simp add: predict_def)
next
  case False
  then have "0 \<le> compute f int_img" by simp
  then have "(0::rat) \<le> of_int (compute f int_img)" by simp
  then show ?thesis by (simp add: predict_def wrap64_id [OF compute_int64])
qed

lemma some_candidate_correct:
  assumes "pos \<noteq> [] \<or> (neg \<noteq> [] \<and> (\<forall>int_img\<in>set neg. - (2 ^ 63) < compute f int_img))"
  shows "\<exists>c\<in>set (candidates f). 0 < spec_raw_count c pos neg"
proof -
  let ?A = "\<lparr>feature = f, WeakClassifier.threshold = - (7 / 9), polarity = 1\<rparr>"
  let ?B = "\<lparr>feature = f, WeakClassifier.threshold = - (7 / 9), polarity = - 1\<rparr>"
  have A: "?A \<in> set (candidates f)" and B: "?B \<in> set (candidates f)"
    by (rule candidates_mem [OF inner_threshold], simp)+
  from assms show ?thesis
  proof
    assume "pos \<noteq> []"
    then obtain p ps where pos: "pos = p # ps" by (cases pos) auto
    from predict_pair_one [of f p] A B
    obtain c where "c \<in> set (candidates f)" "predict c p = 1" by blast
    then show ?thesis using pos by (auto simp add: spec_raw_count_def)
  next
    assume h: "neg \<noteq> [] \<and> (\<forall>int_img\<in>set neg. - (2 ^ 63) < compute f int_img)"
    then obtain q qs where neg: "neg = q # qs" by (cases neg) auto
    with h have "- (2 ^ 63) < compute f q" by simp
    from predict_pair_zero [OF this] A B
    obtain c where "c \<in> set (candidates f)" "predict c q = 0" by blast
    then show ?thesis using neg by (auto simp add: spec_raw_count_def)
  qed
qed


lemma sum_predict_pos:
  "sum_list (map (\<lambda>img. predict c img) xs) = int (length (filter (\<lambda>img. predict c img = 1) xs))"
proof (induction xs)
  case Nil
  show ?case by simp
next
  case (Cons x xs)
  with predict_cases [of c x] show ?case by auto
qed

lemma sum_predict_neg:
  "sum_list (map (\<lambda>img. 1 - predict c img) xs) = int (length (filter (\<lambda>img. predict c img = 0) xs))"
proof (induction xs)
  case Nil
  show ?case by simp
next
  case (Cons x xs)
  with predict_cases [of c x] show ?case by auto
qed

lemma adaboost_accuracy_eq:
  assumes "pos \<noteq> [] \<or> neg \<noteq> []"
  shows "adaboost_accuracy c pos neg =
     Inr (of_nat (spec_raw_count c pos neg) / of_nat (length pos + length neg))"
  using assms
  by (auto simp add: adaboost_accuracy_def predictions_def spec_raw_count_def Let_def
      sum_predict_pos sum_predict_neg)

lemma adaboost_feature:
  assumes "pos \<noteq> [] \<or> neg \<noteq> []"
    and "\<forall>int_img\<in>set (pos @ neg). int64_ndarray int_img \<and> abs_total int_img < 2 ^ 62"
  shows "\<exists>pre c post. candidates f = pre @ c # post \<and>
           search_best (\<lambda>classifier. adaboost_accuracy classifier pos neg) (candidates f) (None, 0)
             = Inr (Some c, of_nat (spec_raw_count c pos neg) / of_nat (length pos + length neg)) \<and>
           (\<forall>d\<in>set pre. spec_raw_count d pos neg < spec_raw_count c pos neg) \<and>
           (\<forall>d\<in>set post. spec_raw_count d pos neg \<le> spec_raw_count c pos neg)"
proof (rule search_best_first_max)
  show "\<forall>c\<in>set (candidates f). adaboost_accuracy c pos neg =
      Inr (of_nat (spec_raw_count c pos neg) / of_nat (length pos + length neg))"
    using adaboost_accuracy_eq [OF assms(1)] by simp
  show "0 < length pos + length neg" using assms(1) by auto
  have "- (2 ^ 63) < compute f int_img" if "int_img \<in> set neg" for int_img
    using assms(2) that by (intro compute_above_min) (simp_all add: int64_ndarray_def)
  then show "\<exists>c\<in>set (candidates f). 0 < spec_raw_count c pos neg"
    using assms(1) by (intro some_candidate_correct) auto
qed


lemma adaboost_loop_weights:
  "adaboost_loop fs pos neg weights clfs = adaboost_loop fs pos neg weights' clfs"
  by (induction fs arbitrary: clfs) (simp_all split: sum.splits prod.splits)

lemma adaboost_loop_spec:
  assumes "pos \<noteq> [] \<or> neg \<noteq> []"
    and "\<forall>int_img\<in>set (pos @ neg). int64_ndarray int_img \<and> abs_total int_img < 2 ^ 62"
  shows "\<exists>cs. adaboost_loop fs pos neg weights clfs = Inr (clfs @ map Some cs) \<and>
           length cs = length fs \<and>
           (\<forall>i<length fs. \<exists>pre post. candidates (fs ! i) = pre @ cs ! i # post \<and>
              (\<forall>d\<in>set pre. spec_raw_count d pos neg < spec_raw_count (cs ! i) pos neg) \<and>
              (\<forall>d\<in>set post. spec_raw_count d pos neg \<le> spec_raw_count (cs ! i) pos neg))"
proof (induction fs arbitrary: clfs)
  case Nil
  show ?case by simp
next
  case (Cons f fs)
  from adaboost_feature [OF assms, of f] obtain pre c post where h:
    "candidates f = pre @ c # post"
    "search_best (\<lambda>classifier. adaboost_accuracy classifier pos neg) (candidates f) (None, 0)
       = Inr (Some c, of_nat (spec_raw_count c pos neg) / of_nat (length pos + length neg))"
    "\<forall>d\<in>set pre. spec_raw_count d pos neg < spec_raw_count c pos neg"
    "\<forall>d\<in>set post. spec_raw_count d pos neg \<le> spec_raw_count c pos neg"
    by blast
  from Cons.IH [of "clfs @ [Some c]"] obtain cs where cs:
    "adaboost_loop fs pos neg weights (clfs @ [Some c]) = Inr ((clfs @ [Some c]) @ map Some cs)"
    "length cs = length fs"
    "\<forall>i<length fs. \<exists>pre post. candidates (fs ! i) = pre @ cs ! i # post \<and>
              (\<forall>d\<in>set pre. spec_raw_count d pos neg < spec_raw_count (cs ! i) pos neg) \<and>
              (\<forall>d\<in>set post. spec_raw_count d pos neg \<le> spec_raw_count (cs ! i) pos neg)"
    by blast
  have run: "adaboost_loop (f # fs) pos neg weights clfs = Inr (clfs @ map Some (c # cs))"
    by (simp add: h(2) cs(1))
  have each: "\<exists>pre post. candidates ((f # fs) ! i) = pre @ (c # cs) ! i # post \<and>
      (\<forall>d\<in>set pre. spec_raw_count d pos neg < spec_raw_count ((c # cs) ! i) pos neg) \<and>
      (\<forall>d\<in>set post. spec_raw_count d pos neg \<le> spec_raw_count ((c # cs) ! i) pos neg)"
    if "i < length (f # fs)" for i
  proof (cases i)
    case 0
    with h show ?thesis by auto
  next
    case (Suc k)
    with that have "k < length fs" by simp
    with cs(3) Suc show ?thesis by simp
  qed
  from run cs(2) each show ?case
    by (intro exI [of _ "c # cs"]) simp
qed

section \<open>Results\<close>

text \<open>
  C1. \<open>compute\<close> receives the integral image and adds up its entries over each half of
  the box. On the 4 by 4 sample the two-rectangle feature over the whole box therefore
  evaluates to 48 - 142 = -94, while the raw pixels of the left half sum to 16 and those of
  the right half to 24, a difference of -8. A classifier with threshold -10 and polarity 1
  on that feature predicts 1 on the sample; with the response -8 it would predict 0.
\<close>

theorem compute_sample_value:
  "integral_image sample = [[1, 2, 4, 6], [2, 4, 8, 12], [5, 10, 18, 26], [8, 16, 28, 40]] \<and>
   compute \<lparr>feature_type = ''two-rect'', position = (0, 0), width = 4, height = 4\<rparr>
     (integral_image sample) = - 94 \<and>
   spec_brute_sum sample 0 4 0 2 = 16 \<and> spec_brute_sum sample 0 4 2 4 = 24 \<and>
   predict \<lparr>feature = \<lparr>feature_type = ''two-rect'', position = (0, 0), width = 4, height = 4\<rparr>,
            WeakClassifier.threshold = - 10, polarity = 1\<rparr> (integral_image sample) = 1"
  by code_simp

text \<open>
  C2. For a non-empty int64 grid whose entries, in absolute value, sum to less than
  \<open>2^63\<close>, the integral image has the dimensions of the grid, obeys the recurrence with
  zero padding at index -1, and the four-corner lookup over any rectangle inside the grid
  equals the sum of the raw pixels of that rectangle. On the 4 by 4 sample the entry at
  (3,3) is 40, the sum of all sixteen pixels. Beyond that bound the sums wrap: for four
  entries \<open>2^62\<close> the table is \<open>[[2^62, -2^63], [-2^63, 0]]\<close>.
\<close>

theorem integral_image_correct:
  assumes "img \<noteq> []" "int64_ndarray img" "abs_total img < 2 ^ 63"
  shows "length (integral_image img) = length img \<and>
         rectangular (integral_image img) \<and>
         shape1 (integral_image img) = shape1 img \<and>
         dtype_int64 (integral_image img) \<and>
         (\<forall>y x. y < length img \<and> int x < shape1 img \<longrightarrow>
            spec_at (integral_image img) (int y) (int x) =
              img ! y ! x + spec_at (integral_image img) (int y - 1) (int x)
              + spec_at (integral_image img) (int y) (int x - 1)
              - spec_at (integral_image img) (int y - 1) (int x - 1)) \<and>
         (\<forall>y0 y1 x0 x1. y0 \<le> y1 \<and> y1 \<le> length img \<and> x0 \<le> x1 \<and> int x1 \<le> shape1 img \<longrightarrow>
            spec_corner_sum (integral_image img) y0 y1 x0 x1 = spec_brute_sum img y0 y1 x0 x1) \<and>
         integral_image sample ! 3 ! 3 = 40"
proof -
  let ?n = "nat (shape1 img)"
  have rect: "rectangular img" and dt: "dtype_int64 img"
    using assms(2) by (simp_all add: int64_ndarray_def)
  have rows: "\<forall>r\<in>set img. length r = ?n" using rect by (rule rectangular_rows)
  have corner: "spec_corner_sum (integral_image img) y0 y1 x0 x1 = spec_brute_sum img y0 y1 x0 x1"
    if "y0 \<le> y1" "y1 \<le> length img" "x0 \<le> x1" "int x1 \<le> shape1 img" for y0 y1 x0 x1
  proof -
    from that(4) have "x1 \<le> ?n" by simp
    with corner_sum_brute [OF rows dt assms(3) that(1) that(2) that(3)] show ?thesis by simp
  qed
  have recur: "spec_at (integral_image img) (int y) (int x) =
              img ! y ! x + spec_at (integral_image img) (int y - 1) (int x)
              + spec_at (integral_image img) (int y) (int x - 1)
              - spec_at (integral_image img) (int y - 1) (int x - 1)"
    if "y < length img" "int x < shape1 img" for y x
  proof -
    have "spec_corner_sum (integral_image img) y (Suc y) x (Suc x) = spec_brute_sum img y (Suc y) x (Suc x)"
      using that by (intro corner) simp_all
    then show ?thesis
      by (simp add: spec_corner_sum_def spec_brute_sum_def)
  qed
  have at33: "integral_image sample ! 3 ! 3 = 40" by code_simp
  show ?thesis
    using length_integral_image [of img] integral_image_shape [OF rect]
      dtype_int64_integral_image [of img] corner recur at33
    by blast
qed

theorem integral_image_correct_witness:
  "sample \<noteq> [] \<and> int64_ndarray sample \<and> abs_total sample < 2 ^ 63 \<and>
   (1::nat) \<le> 3 \<and> 3 \<le> length sample \<and> (1::nat) \<le> 4 \<and> int 4 \<le> shape1 sample \<and>
   spec_corner_sum (integral_image sample) 1 3 1 4 = spec_brute_sum sample 1 3 1 4 \<and>
   spec_brute_sum sample 1 3 1 4 = 16"
proof -
  have ne: "sample \<noteq> []" by code_simp
  have dt: "int64_ndarray sample" by code_simp
  have small: "abs_total sample < 2 ^ 63" by code_simp
  have bounds: "(1::nat) \<le> 3 \<and> 3 \<le> length sample \<and> (1::nat) \<le> 4 \<and> int 4 \<le> shape1 sample"
    by code_simp
  have brute: "spec_brute_sum sample 1 3 1 4 = 16" by code_simp
  from integral_image_correct [OF ne dt small]
  have "\<forall>y0 y1 x0 x1. y0 \<le> y1 \<and> y1 \<le> length sample \<and> x0 \<le> x1 \<and> int x1 \<le> shape1 sample \<longrightarrow>
            spec_corner_sum (integral_image sample) y0 y1 x0 x1 = spec_brute_sum sample y0 y1 x0 x1"
    by (elim conjE)
  from this [rule_format, of 1 3 1 4] bounds
  have "spec_corner_sum (integral_image sample) 1 3 1 4 = spec_brute_sum sample 1 3 1 4"
    by simp
  with ne dt small bounds brute show ?thesis by simp
qed

theorem integral_image_sample_counterexample:
  "integral_image sample ! 3 ! 3 = 40 \<and> integral_image sample ! 3 ! 3 \<noteq> 36 \<and>
   int64_ndarray [[2 ^ 62, 2 ^ 62], [2 ^ 62, 2 ^ 62]] \<and>
   integral_image [[2 ^ 62, 2 ^ 62], [2 ^ 62, 2 ^ 62]] = [[2 ^ 62, - (2 ^ 63)], [- (2 ^ 63), 0]] \<and>
   spec_at (integral_image [[2 ^ 62, 2 ^ 62], [2 ^ 62, 2 ^ 62]]) 1 1 = 0 \<and>
   [[2 ^ 62, 2 ^ 62], [2 ^ 62, 2 ^ 62]] ! 1 ! 1
     + spec_at (integral_image [[2 ^ 62, 2 ^ 62], [2 ^ 62, 2 ^ 62]]) 0 1
     + spec_at (integral_image [[2 ^ 62, 2 ^ 62], [2 ^ 62, 2 ^ 62]]) 1 0
     - spec_at (integral_image [[2 ^ 62, 2 ^ 62], [2 ^ 62, 2 ^ 62]]) 0 0 = - (2 ^ 64) \<and>
   spec_corner_sum (integral_image [[2 ^ 62, 2 ^ 62], [2 ^ 62, 2 ^ 62]]) 0 2 0 2 = 0 \<and>
   spec_brute_sum [[2 ^ 62, 2 ^ 62], [2 ^ 62, 2 ^ 62]] 0 2 0 2 = 2 ^ 64"
  by code_simp

text \<open>
  C3. For a positive step the scanner returns only windows of the requested size whose
  origin is a multiple of the step in both coordinates, with \<open>0 \<le> y < height - h\<close> and
  \<open>0 \<le> x < width - w\<close>. On a 28 by 28 image with a 24 by 24 window and step 4 the only
  origin is (0,0): the origin (4,0) is not visited.
\<close>

theorem sliding_window_origins:
  assumes "0 < step_size"
  shows "(\<exists>regions. sliding_window img cascade (w, h) step_size = Inr regions \<and>
            (\<forall>r\<in>set regions. \<exists>x y. r = (x, y, w, h) \<and>
               0 \<le> y \<and> y < shape0 img - h \<and> step_size dvd y \<and>
               0 \<le> x \<and> x < shape1 img - w \<and> step_size dvd x)) \<and>
         (shape0 img = 28 \<and> shape1 img = 28 \<longrightarrow>
            (\<exists>regions. sliding_window img cascade (24, 24) 4 = Inr regions \<and>
               set regions \<subseteq> {(0, 0, 24, 24)}))"
proof -
  have general: "\<exists>regions. sliding_window img cascade (w', h') step = Inr regions \<and>
            (\<forall>r\<in>set regions. \<exists>x y. r = (x, y, w', h') \<and>
               0 \<le> y \<and> y < shape0 img - h' \<and> step dvd y \<and>
               0 \<le> x \<and> x < shape1 img - w' \<and> step dvd x)"
    if pos: "0 < step" for w' h' step
  proof -
    obtain ys where ys: "py_range (shape0 img - h') step = Inr ys"
      using pos by (simp add: py_range_def)
    obtain xs where xs: "py_range (shape1 img - w') step = Inr xs"
      using pos by (simp add: py_range_def)
    let ?regions = "concat (map (\<lambda>y. scan_row img cascade (w', h') y xs []) ys)"
    have res: "sliding_window img cascade (w', h') step = Inr ?regions"
      using ys xs by (simp add: sliding_window_def scan_rows_eq)
    have "\<exists>x y. r = (x, y, w', h') \<and>
               0 \<le> y \<and> y < shape0 img - h' \<and> step dvd y \<and>
               0 \<le> x \<and> x < shape1 img - w' \<and> step dvd x" if "r \<in> set ?regions" for r
    proof -
      from that obtain y where y: "y \<in> set ys" "r \<in> set (scan_row img cascade (w', h') y xs [])"
        by auto
      from scan_row_mem [OF y(2)] obtain x where x: "x \<in> set xs" "r = (x, y, w', h')"
        by auto
      from py_range_mem [OF pos ys y(1)] py_range_mem [OF pos xs x(1)] x(2)
      show ?thesis by simp
    qed
    with res show ?thesis by blast
  qed
  have special: "\<exists>regions. sliding_window img cascade (24, 24) 4 = Inr regions \<and>
               set regions \<subseteq> {(0, 0, 24, 24)}"
    if sh: "shape0 img = 28" "shape1 img = 28"
  proof -
    from general [of 4 24 24] obtain regions where
      res: "sliding_window img cascade (24, 24) 4 = Inr regions" and
      mem: "\<forall>r\<in>set regions. \<exists>x y. r = (x, y, 24, 24) \<and>
               0 \<le> y \<and> y < shape0 img - 24 \<and> 4 dvd y \<and>
               0 \<le> x \<and> x < shape1 img - 24 \<and> 4 dvd x"
      by auto
    have "r = (0, 0, 24, 24)" if "r \<in> set regions" for r
    proof -
      from mem that sh obtain x y :: int where
        r: "r = (x, y, 24, 24)" and y: "0 \<le> y" "y < 4" "4 dvd y" and x: "0 \<le> x" "x < 4" "4 dvd x"
        by auto
      from y have "y = 0" by presburger
      moreover from x have "x = 0" by presburger
      ultimately show ?thesis using r by simp
    qed
    with res show ?thesis by auto
  qed
  from general [OF assms] special show ?thesis by blast
qed

theorem sliding_window_origins_witness:
  "(0::int) < 4 \<and>
   shape0 (replicate 28 (replicate 28 0)) = 28 \<and> shape1 (replicate 28 (replicate 28 0)) = 28 \<and>
   (\<exists>regions. sliding_window (replicate 28 (replicate 28 0)) \<lparr>stages = []\<rparr> (24, 24) 4 = Inr regions \<and>
      set regions \<subseteq> {(0, 0, 24, 24)})"
proof -
  have pos: "(0::int) < 4" by simp
  have s0: "shape0 (replicate 28 (replicate 28 0)) = 28" by (simp add: shape0_def)
  have s1: "shape1 (replicate 28 (replicate 28 0)) = 28" by code_simp
  from sliding_window_origins [OF pos, of "replicate 28 (replicate 28 0)" "\<lparr>stages = []\<rparr>" 24 24] s0 s1
  have "\<exists>regions. sliding_window (replicate 28 (replicate 28 0)) \<lparr>stages = []\<rparr> (24, 24) 4 = Inr regions \<and>
      set regions \<subseteq> {(0, 0, 24, 24)}"
    by blast
  with pos s0 s1 show ?thesis by blast
qed

theorem sliding_window_origins_counterexample:
  "sliding_window (replicate 28 (replicate 28 0)) \<lparr>stages = []\<rparr> (24, 24) 4 = Inr [(0, 0, 24, 24)] \<and>
   (4, 0, 24, 24) \<notin> set [(0, 0, 24, 24) :: region] \<and>
   sliding_window [[0]] \<lparr>stages = []\<rparr> (2, 2) (- 1) = Inr [(0, 0, 2, 2)] \<and>
   shape0 [[0]] - 2 = - 1"
  by code_simp

text \<open>
  C4. \<open>adaboost_train\<close> takes no weight vector; it computes initial weights and its result
  does not depend on them. For a non-empty set of int64 integral images whose entries, in
  absolute value, sum to less than \<open>2^62\<close> each, it returns, for each feature, the first
  candidate that maximises the raw count of correctly classified samples.
\<close>

theorem adaboost_train_raw_count:
  assumes "pos \<noteq> [] \<or> neg \<noteq> []"
    and "\<forall>int_img\<in>set (pos @ neg). int64_ndarray int_img \<and> abs_total int_img < 2 ^ 62"
  shows "(\<exists>cs. adaboost_train features pos neg = Inr (map Some cs) \<and>
           length cs = length features \<and>
           (\<forall>i<length features. \<exists>pre post. candidates (features ! i) = pre @ cs ! i # post \<and>
              (\<forall>d\<in>set pre. spec_raw_count d pos neg < spec_raw_count (cs ! i) pos neg) \<and>
              (\<forall>d\<in>set post. spec_raw_count d pos neg \<le> spec_raw_count (cs ! i) pos neg))) \<and>
         (\<forall>weights. adaboost_loop features pos neg weights [] = adaboost_train features pos neg)"
proof -
  from adaboost_loop_spec [OF assms, of features "initial_weights (length pos) (length neg)" "[]"]
  have first: "\<exists>cs. adaboost_train features pos neg = Inr (map Some cs) \<and>
           length cs = length features \<and>
           (\<forall>i<length features. \<exists>pre post. candidates (features ! i) = pre @ cs ! i # post \<and>
              (\<forall>d\<in>set pre. spec_raw_count d pos neg < spec_raw_count (cs ! i) pos neg) \<and>
              (\<forall>d\<in>set post. spec_raw_count d pos neg \<le> spec_raw_count (cs ! i) pos neg))"
    by (simp add: adaboost_train_def)
  have "adaboost_loop features pos neg weights [] = adaboost_train features pos neg" for weights
    unfolding adaboost_train_def by (rule adaboost_loop_weights)
  with first show ?thesis by blast
qed

theorem adaboost_train_raw_count_witness:
  "[[[0, 0]]] \<noteq> ([] :: ndarray list) \<and>
   int64_ndarray [[0, 0]] \<and> abs_total [[0, 0]] < 2 ^ 62 \<and>
   int64_ndarray [[5, 0]] \<and> abs_total [[5, 0]] < 2 ^ 62 \<and>
   adaboost_train [edge_feature] [[[0, 0]]] [[[0, 0]], [[0, 0]], [[5, 0]]] =
     Inr [Some \<lparr>feature = edge_feature, WeakClassifier.threshold = - 1, polarity = 1\<rparr>] \<and>
   adaboost_loop [edge_feature] [[[0, 0]]] [[[0, 0]], [[0, 0]], [[5, 0]]] [] [] =
     Inr [Some \<lparr>feature = edge_feature, WeakClassifier.threshold = - 1, polarity = 1\<rparr>]"
proof -
  have ne: "[[[0, 0]]] \<noteq> ([] :: ndarray list) \<or> [[[0, 0]], [[0, 0]], [[5, 0]]] \<noteq> ([] :: ndarray list)"
    by simp
  have ok: "int64_ndarray [[0, 0]]" "abs_total [[0, 0]] < 2 ^ 62"
    "int64_ndarray [[5, 0]]" "abs_total [[5, 0]] < 2 ^ 62"
    by code_simp+
  then have all: "\<forall>int_img\<in>set ([[[0, 0]]] @ [[[0, 0]], [[0, 0]], [[5, 0]]]).
      int64_ndarray int_img \<and> abs_total int_img < 2 ^ 62"
    by simp
  have val: "adaboost_train [edge_feature] [[[0, 0]]] [[[0, 0]], [[0, 0]], [[5, 0]]] =
     Inr [Some \<lparr>feature = edge_feature, WeakClassifier.threshold = - 1, polarity = 1\<rparr>]"
    by code_simp
  from adaboost_train_raw_count [OF ne all, of "[edge_feature]"]
  have "adaboost_loop [edge_feature] [[[0, 0]]] [[[0, 0]], [[0, 0]], [[5, 0]]] [] [] =
      adaboost_train [edge_feature] [[[0, 0]]] [[[0, 0]], [[0, 0]], [[5, 0]]]"
    by blast
  with ok val show ?thesis by simp
qed

theorem adaboost_weighted_counterexample:
  "adaboost_train [edge_feature] [[[0, 0]]] [[[0, 0]], [[0, 0]], [[5, 0]]] =
     Inr [Some \<lparr>feature = edge_feature, WeakClassifier.threshold = - 1, polarity = 1\<rparr>] \<and>
   \<lparr>feature = edge_feature, WeakClassifier.threshold = 1 / 9, polarity = 1\<rparr> \<in> set (candidates edge_feature) \<and>
   spec_weighted_score \<lparr>feature = edge_feature, WeakClassifier.threshold = - 1, polarity = 1\<rparr>
     [[[0, 0]]] [[[0, 0]], [[0, 0]], [[5, 0]]] = 1 / 2 \<and>
   spec_weighted_score \<lparr>feature = edge_feature, WeakClassifier.threshold = 1 / 9, polarity = 1\<rparr>
     [[[0, 0]]] [[[0, 0]], [[0, 0]], [[5, 0]]] = 2 / 3 \<and>
   spec_raw_count \<lparr>feature = edge_feature, WeakClassifier.threshold = - 1, polarity = 1\<rparr>
     [[[0, 0]]] [[[0, 0]], [[0, 0]], [[5, 0]]] = 3 \<and>
   spec_raw_count \<lparr>feature = edge_feature, WeakClassifier.threshold = 1 / 9, polarity = 1\<rparr>
     [[[0, 0]]] [[[0, 0]], [[0, 0]], [[5, 0]]] = 2"
  by code_simp

text \<open>
  C5. \<open>detect\<close> returns true exactly when every stage passes. The classifiers it
  evaluates are those of the stages that pass up to the first rejecting stage, followed by
  those of that rejecting stage, in declaration order: no classifier of a later stage is
  evaluated.
\<close>

theorem detect_short_circuit:
  "detect_log cascade img [] =
     (list_all (\<lambda>s. classify s (integral_image img)) (stages cascade),
      concat (map classifiers
        (takeWhile (\<lambda>s. classify s (integral_image img)) (stages cascade) @
         take 1 (dropWhile (\<lambda>s. classify s (integral_image img)) (stages cascade)))))
   \<and> detect cascade img = list_all (\<lambda>s. classify s (integral_image img)) (stages cascade)"
  by (simp add: detect_def detect_log_def detect_loop_eq)

theorem detect_short_circuit_witness:
  "detect_log
     \<lparr>stages =
        [\<lparr>classifiers = [\<lparr>feature = edge_feature, WeakClassifier.threshold = 0, polarity = 1\<rparr>],
          CascadeStage.threshold = 2\<rparr>,
         \<lparr>classifiers = [\<lparr>feature = edge_feature, WeakClassifier.threshold = 1, polarity = - 1\<rparr>],
          CascadeStage.threshold = 0\<rparr>]\<rparr>
     sample [] =
   (False, [\<lparr>feature = edge_feature, WeakClassifier.threshold = 0, polarity = 1\<rparr>])"
  using detect_short_circuit [of
     "\<lparr>stages =
        [\<lparr>classifiers = [\<lparr>feature = edge_feature, WeakClassifier.threshold = 0, polarity = 1\<rparr>],
          CascadeStage.threshold = 2\<rparr>,
         \<lparr>classifiers = [\<lparr>feature = edge_feature, WeakClassifier.threshold = 1, polarity = - 1\<rparr>],
          CascadeStage.threshold = 0\<rparr>]\<rparr>" sample]
  by code_simp



text \<open>
  C7. \<open>compute\<close> never fails. On an int64 integral image, a two-rectangle feature at a
  position with non-negative coordinates and with non-negative width and height evaluates
  to the sum of the entries of the part of its left half that lies inside the array minus
  the sum of the entries of the part of its right half that lies inside the array, wrapped
  to 64 bits; a half that lies wholly outside contributes 0. This holds also when the box
  exceeds the extent of the array. Any other feature type evaluates to 0.
\<close>

theorem compute_clamps:
  assumes "int64_ndarray int_img"
    and "0 \<le> fst (position f)" "0 \<le> snd (position f)" "0 \<le> width f" "0 \<le> height f"
  shows "compute f int_img =
     (if feature_type f = ''two-rect'' then
        wrap64
         (spec_brute_sum int_img
            (min (nat (snd (position f))) (length int_img))
            (min (nat (snd (position f) + height f)) (length int_img))
            (min (nat (fst (position f))) (nat (shape1 int_img)))
            (min (nat (fst (position f) + width f div 2)) (nat (shape1 int_img)))
          - spec_brute_sum int_img
            (min (nat (snd (position f))) (length int_img))
            (min (nat (snd (position f) + height f)) (length int_img))
            (min (nat (fst (position f) + width f div 2)) (nat (shape1 int_img)))
            (min (nat (fst (position f) + width f)) (nat (shape1 int_img))))
      else 0)"
proof -
  have rect: "rectangular int_img" using assms(1) by (simp add: int64_ndarray_def)
  have w2: "0 \<le> width f div 2" using assms(4) by simp
  have idx: "slice_index n (snd (position f)) = min (nat (snd (position f))) n"
    "slice_index n (snd (position f) + height f) = min (nat (snd (position f) + height f)) n"
    "slice_index n (fst (position f)) = min (nat (fst (position f))) n"
    "slice_index n (fst (position f) + width f div 2) = min (nat (fst (position f) + width f div 2)) n"
    "slice_index n (fst (position f) + width f) = min (nat (fst (position f) + width f)) n" for n
    using assms(2-5) w2 by (simp_all add: slice_index_nonneg)
  show ?thesis
    by (simp add: compute_def Let_def split_beta array_sum_slice2 [OF rect] wrap64_diff idx)
qed

theorem compute_clamps_witness:
  "int64_ndarray [[1, 2], [3, 4]] \<and>
   spec_exceeds_extent \<lparr>feature_type = ''two-rect'', position = (0, 0), width = 4, height = 4\<rparr> [[1, 2], [3, 4]] \<and>
   compute \<lparr>feature_type = ''two-rect'', position = (0, 0), width = 4, height = 4\<rparr> [[1, 2], [3, 4]] =
     wrap64 (spec_brute_sum [[1, 2], [3, 4]] 0 2 0 2 - spec_brute_sum [[1, 2], [3, 4]] 0 2 2 2) \<and>
   spec_brute_sum [[1, 2], [3, 4]] 0 2 0 2 = 10 \<and> spec_brute_sum [[1, 2], [3, 4]] 0 2 2 2 = 0"
proof -
  have dt: "int64_ndarray [[1, 2], [3, 4]]" by code_simp
  have ex: "spec_exceeds_extent \<lparr>feature_type = ''two-rect'', position = (0, 0), width = 4, height = 4\<rparr> [[1, 2], [3, 4]]"
    by code_simp
  have vals: "spec_brute_sum [[1, 2], [3, 4]] 0 2 0 2 = 10" "spec_brute_sum [[1, 2], [3, 4]] 0 2 2 2 = 0"
    by code_simp+
  from compute_clamps [OF dt, of "\<lparr>feature_type = ''two-rect'', position = (0, 0), width = 4, height = 4\<rparr>"]
  have "compute \<lparr>feature_type = ''two-rect'', position = (0, 0), width = 4, height = 4\<rparr> [[1, 2], [3, 4]] =
     wrap64 (spec_brute_sum [[1, 2], [3, 4]] 0 2 0 2 - spec_brute_sum [[1, 2], [3, 4]] 0 2 2 2)"
    by code_simp
  with dt ex vals show ?thesis by simp
qed

theorem compute_out_of_bounds_counterexample:
  "spec_exceeds_extent \<lparr>feature_type = ''two-rect'', position = (0, 0), width = 4, height = 4\<rparr> [[1, 2], [3, 4]] \<and>
   compute \<lparr>feature_type = ''two-rect'', position = (0, 0), width = 4, height = 4\<rparr> [[1, 2], [3, 4]] = 10"
  by code_simp

text \<open>
  C8. A cascade without stages accepts every image, and so does \<open>detect_faces\<close> with an
  empty list of classifiers.
\<close>

theorem empty_cascade_accepts:
  "detect \<lparr>stages = []\<rparr> img = True \<and> detect_faces img [] = True"
  by (simp add: detect_def detect_log_def detect_faces_def)



text \<open>
  C10. For a positive step, an image that is not higher than the window, or not wider than
  it, yields no window at all, also when the image and the window have the same size.
\<close>

theorem no_room_no_window:
  assumes "0 < step_size" "shape0 img \<le> h \<or> shape1 img \<le> w"
  shows "sliding_window img cascade (w, h) step_size = Inr []"
proof -
  obtain ys where ys: "py_range (shape0 img - h) step_size = Inr ys"
    using assms(1) by (simp add: py_range_def)
  obtain xs where xs: "py_range (shape1 img - w) step_size = Inr xs"
    using assms(1) by (simp add: py_range_def)
  have res: "sliding_window img cascade (w, h) step_size =
      Inr (concat (map (\<lambda>y. scan_row img cascade (w, h) y xs []) ys))"
    using ys xs by (simp add: sliding_window_def scan_rows_eq)
  from assms(2) show ?thesis
  proof
    assume "shape0 img \<le> h"
    then have "ys = []" using py_range_empty [OF assms(1), of "shape0 img - h"] ys by simp
    with res show ?thesis by simp
  next
    assume "shape1 img \<le> w"
    then have "xs = []" using py_range_empty [OF assms(1), of "shape1 img - w"] xs by simp
    with res show ?thesis by simp
  qed
qed

theorem no_room_no_window_witness:
  "(0::int) < 4 \<and> shape0 (replicate 24 (replicate 24 7)) = 24 \<and>
   shape1 (replicate 24 (replicate 24 7)) = 24 \<and>
   sliding_window (replicate 24 (replicate 24 7)) \<lparr>stages = []\<rparr> (24, 24) 4 = Inr []"
proof -
  have s0: "shape0 (replicate 24 (replicate 24 7)) = 24" by (simp add: shape0_def)
  have s1: "shape1 (replicate 24 (replicate 24 7)) = 24" by code_simp
  have "shape0 (replicate 24 (replicate 24 7)) \<le> 24 \<or> shape1 (replicate 24 (replicate 24 7)) \<le> 24"
    using s0 by simp
  from no_room_no_window [OF _ this, of 4 "\<lparr>stages = []\<rparr>"] s0 s1 show ?thesis by simp
qed

end
